theory Spec2Isabelle
  imports Complex_Main
begin

section \<open>The diffusion battery (battery/diffusion_battery.py)\<close>

text \<open>
  A float of the program is a finite number or NaN; a finite number is a real, and every
  arithmetic operation on finite numbers is the exact one (no rounding, no overflow;
  \<open>/\<close> on Python numbers is Python 3's true division). numpy divides 0 by 0 to NaN with
  a warning, and NaN goes through every later operation. Dividing a number other than 0
  by 0 gives an infinity in numpy; the program does that nowhere (the only division by 0
  is at a cathode width of 0, where the one sample point is 0), and infinite values are
  not values of this model: there \<open>fl_div\<close> answers NaN. Python exceptions are values
  of \<open>error\<close>.
\<close>

datatype fl = Num real | NaN

datatype error =
    IndexError
  | ValueError
  | ZeroDivisionError
  | AssertionError
  | UnrecognizedStep string

fun fl_add :: "fl \<Rightarrow> fl \<Rightarrow> fl" where
  "fl_add (Num x) (Num y) = Num (x + y)"
| "fl_add _ _ = NaN"

fun fl_sub :: "fl \<Rightarrow> fl \<Rightarrow> fl" where
  "fl_sub (Num x) (Num y) = Num (x - y)"
| "fl_sub _ _ = NaN"

fun fl_mul :: "fl \<Rightarrow> fl \<Rightarrow> fl" where
  "fl_mul (Num x) (Num y) = Num (x * y)"
| "fl_mul _ _ = NaN"

fun fl_div :: "fl \<Rightarrow> fl \<Rightarrow> fl" where
  "fl_div (Num x) (Num y) = (if y = 0 then NaN else Num (x / y))"
| "fl_div _ _ = NaN"

fun fl_exp :: "fl \<Rightarrow> fl" where
  "fl_exp (Num x) = Num (exp x)"
| "fl_exp NaN = NaN"

text \<open>The comparisons \<open>==\<close>, \<open><\<close> and \<open><=\<close>: every comparison with NaN is false.\<close>

fun fl_eq :: "fl \<Rightarrow> fl \<Rightarrow> bool" where
  "fl_eq (Num x) (Num y) = (x = y)"
| "fl_eq _ _ = False"

fun fl_less :: "fl \<Rightarrow> fl \<Rightarrow> bool" where
  "fl_less (Num x) (Num y) = (x < y)"
| "fl_less _ _ = False"

fun fl_le :: "fl \<Rightarrow> fl \<Rightarrow> bool" where
  "fl_le (Num x) (Num y) = (x \<le> y)"
| "fl_le _ _ = False"

fun is_number :: "fl \<Rightarrow> bool" where
  "is_number (Num x) = True"
| "is_number NaN = False"

subsection \<open>The numpy operations the battery uses\<close>

text \<open>
  An array has the element type \<open>int64\<close> (as \<open>np.array([1, 2, 3])\<close> in the test and the
  zeros of \<open>Charge.get_init_vals\<close>) or \<open>float64\<close> (as every array that
  \<open>compute_charge_curve\<close> returns). Integers are taken as they are: the wrap-around
  of 64-bit arithmetic, and the OverflowError of a store beyond the range of 64 bits, are
  left out, as rounding is. \<open>items\<close> reads the elements as floats.
\<close>

datatype ndarray = Int64 "int list" | Float64 "fl list"

fun items :: "ndarray \<Rightarrow> fl list" where
  "items (Int64 xs) = map (\<lambda>i. Num (of_int i)) xs"
| "items (Float64 xs) = xs"

text \<open>
  \<open>a[i] = v\<close> converts \<open>v\<close> to the element type: into an \<open>int64\<close> array a number is
  stored truncated toward zero, and NaN raises ValueError (cannot convert float NaN to
  integer). An index out of range raises IndexError.
\<close>

definition py_trunc :: "real \<Rightarrow> int" where
  "py_trunc x = (if 0 \<le> x then \<lfloor>x\<rfloor> else \<lceil>x\<rceil>)"

fun setitem :: "ndarray \<Rightarrow> nat \<Rightarrow> fl \<Rightarrow> error + ndarray" where
  "setitem (Float64 xs) i v =
     (if i < length xs then Inr (Float64 (xs[i := v])) else Inl IndexError)"
| "setitem (Int64 xs) i v =
     (if i < length xs
      then (case v of
              Num x \<Rightarrow> Inr (Int64 (xs[i := py_trunc x]))
            | NaN \<Rightarrow> Inl ValueError)
      else Inl IndexError)"

text \<open>Indexing that raises IndexError out of range, for the indices 0 and 1 used here.\<close>

definition getitem :: "'a list \<Rightarrow> nat \<Rightarrow> error + 'a" where
  "getitem xs i = (if i < length xs then Inr (xs ! i) else Inl IndexError)"

text \<open>\<open>np.sum\<close>.\<close>

primrec fl_sum :: "fl list \<Rightarrow> fl" where
  "fl_sum [] = Num 0"
| "fl_sum (x # xs) = fl_add x (fl_sum xs)"

text \<open>
  \<open>np.arange(start, stop, dx)\<close> has \<open>ceil((stop - start) / dx)\<close> samples (none when
  that is not positive), the sample of index \<open>i\<close> being \<open>start + i * dx\<close>.
\<close>

definition np_arange :: "real \<Rightarrow> real \<Rightarrow> real \<Rightarrow> real list" where
  "np_arange start stop dx =
     map (\<lambda>i. start + real i * dx) [0..<nat \<lceil>(stop - start) / dx\<rceil>]"

text \<open>
  \<open>np.convolve(a, v, mode="full")\<close>: the sample of index \<open>n\<close> is the sum of
  \<open>a[m] * v[n - m]\<close> over the \<open>m\<close> where both indices are in range; there are
  \<open>len(a) + len(v) - 1\<close> samples.
\<close>

definition np_convolve_full :: "fl list \<Rightarrow> fl list \<Rightarrow> fl list" where
  "np_convolve_full a v =
     map (\<lambda>n. fl_sum (map (\<lambda>m. fl_mul (a ! m) (v ! (n - m)))
                          (filter (\<lambda>m. m \<le> n \<and> n - m < length v) [0..<length a])))
         [0..<length a + length v - 1]"

text \<open>
  \<open>np.convolve(a, v, mode="same")\<close>: the arguments are swapped when \<open>v\<close> is the longer
  one, an empty argument raises ValueError, and the result is the centred part of the full
  convolution, as long as the longer argument: it starts at index
  \<open>len(v) - 1 - len(v) // 2\<close> of the full convolution.
\<close>

definition np_convolve_same :: "fl list \<Rightarrow> fl list \<Rightarrow> error + fl list" where
  "np_convolve_same a0 v0 =
     (let a = (if length v0 > length a0 then v0 else a0);
          v = (if length v0 > length a0 then a0 else v0)
      in if a = [] then Inl ValueError
         else if v = [] then Inl ValueError
         else Inr (take (length a)
                     (drop (length v - 1 - length v div 2) (np_convolve_full a v))))"

text \<open>
  The slice \<open>xs[start:-n]\<close> for \<open>start \<ge> 0\<close>: Python reads \<open>-0\<close> as the index 0, so
  the slice is empty when \<open>n = 0\<close>; otherwise it stops \<open>n\<close> samples before the end.
\<close>

definition slice_to_neg :: "'a list \<Rightarrow> nat \<Rightarrow> nat \<Rightarrow> 'a list" where
  "slice_to_neg xs start n =
     (if n = 0 then [] else drop start (take (length xs - n) xs))"

subsection \<open>The battery and its diffusion step\<close>

record diffusion_battery =
  soc :: fl
  ocp :: fl
  charge_curve :: ndarray
  cathode_width :: int

text \<open>Lines 80 to 84 of \<open>compute_charge_curve\<close>: the sample points of the kernel.\<close>

definition kernel_sigma :: "diffusion_battery \<Rightarrow> real" where
  "kernel_sigma self = real_of_int (cathode_width self) / 10"

definition kernel_gx :: "diffusion_battery \<Rightarrow> real list" where
  "kernel_gx self =
     (let sigma = kernel_sigma self;
          dx = 1;
          width = 3
      in np_arange (- width * sigma) (width * sigma + 1) dx)"

text \<open>
  Lines 86 to 88: the normal distribution on the sample points, then renormalised.
  \<open>normal_density\<close> is the expression of line 86 at one sample point; both of its
  divisions are numpy's.
\<close>

definition normal_density :: "real \<Rightarrow> real \<Rightarrow> fl" where
  "normal_density sigma x =
     fl_div (fl_exp (fl_div (Num (- (x ^ 2))) (Num (2 * sigma ^ 2))))
       (Num (sqrt (2 * pi * sigma ^ 2)))"

definition kernel_gaussian :: "diffusion_battery \<Rightarrow> fl list" where
  "kernel_gaussian self =
     (let sigma = kernel_sigma self;
          gx = kernel_gx self;
          gaussian = map (normal_density sigma) gx
      in map (\<lambda>g. fl_div g (fl_sum gaussian)) gaussian)"

text \<open>
  The value of \<open>normal_density\<close> where it is a number, that is for \<open>sigma\<close> other
  than 0 (lemma \<open>normal_density_Num\<close>); used to state properties of the kernel.
\<close>

definition gauss_value :: "real \<Rightarrow> real \<Rightarrow> real" where
  "gauss_value sigma x = exp (- (x ^ 2) / (2 * sigma ^ 2)) / sqrt (2 * pi * sigma ^ 2)"

text \<open>
  Lines 80 to 98 of \<open>compute_charge_curve\<close>, on the elements of the working copy \<open>y\<close>
  (whose index 0 already holds the driving potential).
\<close>

definition diffuse :: "diffusion_battery \<Rightarrow> fl list \<Rightarrow> error + fl list" where
  "diffuse self y =
     (let gaussian = kernel_gaussian self;
          zeros = map (\<lambda>val. Num 0) gaussian;
          prepend = map (\<lambda>val. y ! 0) gaussian;
          base = zeros @ prepend @ y @ rev y;
          pad_len = 2 * length gaussian
      in case np_convolve_same base gaussian of
           Inl e \<Rightarrow> Inl e
         | Inr convolution \<Rightarrow> Inr (slice_to_neg convolution pad_len (length y)))"

text \<open>
  \<open>compute_charge_curve\<close> on values: lines 78 and 79 (the copy, and the store into it,
  which raises IndexError on an empty array and converts the driving potential to the
  element type), then the rest; the convolution with the float kernel gives a
  \<open>float64\<close> array. The parameter \<open>charge_curve\<close> is written \<open>curve\<close> (the record
  field has the name).
\<close>

definition compute_charge_curve ::
  "diffusion_battery \<Rightarrow> fl \<Rightarrow> ndarray \<Rightarrow> error + ndarray" where
  "compute_charge_curve self drive_pot curve =
     (case setitem curve 0 drive_pot of
        Inl e \<Rightarrow> Inl e
      | Inr y \<Rightarrow>
          (case diffuse self (items y) of
             Inl e \<Rightarrow> Inl e
           | Inr new_charge_curve \<Rightarrow> Inr (Float64 new_charge_curve)))"

subsection \<open>The same step on a heap of arrays\<close>






subsection \<open>The update in the words of the specification\<close>

text \<open>
  Clamp index 0 of a working copy to the driving potential; concatenate a run of zeros
  and a run of the driving potential, each as long as the kernel, the working curve and
  its reverse; convolve with the kernel in same-length mode; drop the first
  \<open>2 * kernelSize\<close> samples and the last \<open>N\<close> samples.
\<close>

definition update_spec :: "diffusion_battery \<Rightarrow> fl \<Rightarrow> fl list \<Rightarrow> fl list" where
  "update_spec self p curve =
     (let y = curve[0 := p];
          kernel = kernel_gaussian self;
          k = length kernel;
          extended = replicate k (Num 0) @ replicate k p @ y @ rev y;
          smoothed = take (length extended)
                       (drop (k - 1 - k div 2) (np_convolve_full extended kernel));
          cropped = drop (2 * k) smoothed
      in take (length cropped - length curve) cropped)"

subsection \<open>Counting the diffusion updates\<close>

text \<open>
  A computation of the solver yields a value or an exception, and the number of calls of
  \<open>compute_charge_curve\<close> it made (a call that raises is a call).
\<close>

type_synonym 'a counted = "(error + 'a) \<times> nat"

definition returnC :: "'a \<Rightarrow> 'a counted" where
  "returnC x = (Inr x, 0)"

definition raiseC :: "error \<Rightarrow> 'a counted" where
  "raiseC e = (Inl e, 0)"

definition bindC :: "'a counted \<Rightarrow> ('a \<Rightarrow> 'b counted) \<Rightarrow> 'b counted" where
  "bindC m f =
     (case m of
        (Inl e, n) \<Rightarrow> (Inl e, n)
      | (Inr x, n) \<Rightarrow> (case f x of (r, k) \<Rightarrow> (r, n + k)))"

definition call_compute_charge_curve ::
  "diffusion_battery \<Rightarrow> fl \<Rightarrow> ndarray \<Rightarrow> ndarray counted" where
  "call_compute_charge_curve self drive_pot curve =
     (compute_charge_curve self drive_pot curve, 1)"

subsection \<open>Derived quantities, closures and the solver\<close>

definition compute_current :: "diffusion_battery \<Rightarrow> fl \<Rightarrow> ndarray \<Rightarrow> fl counted" where
  "compute_current self drive_pot curve =
     bindC (call_compute_charge_curve self drive_pot curve)
       (\<lambda>new_charge_curve.
          returnC (fl_sub (fl_sum (items new_charge_curve)) (fl_sum (items curve))))"

definition compute_ocp :: "diffusion_battery \<Rightarrow> fl \<Rightarrow> ndarray \<Rightarrow> fl counted" where
  "compute_ocp self drive_pot curve =
     bindC (call_compute_charge_curve self drive_pot curve)
       (\<lambda>new_charge_curve. (getitem (items new_charge_curve) 0, 0))"

text \<open>
  \<open>get_calc_current(charge_curve)\<close> and \<open>get_calc_ocp(charge_curve)\<close> return closures;
  here the closure is the partial application. Each works on a copy of the curve whose
  index 0 it sets to the driving potential.
\<close>

definition get_calc_current :: "diffusion_battery \<Rightarrow> ndarray \<Rightarrow> fl \<Rightarrow> fl counted" where
  "get_calc_current self curve drive_pot =
     (case setitem curve 0 drive_pot of
        Inl e \<Rightarrow> raiseC e
      | Inr new_charge_curve \<Rightarrow> compute_current self drive_pot new_charge_curve)"

definition get_calc_ocp :: "diffusion_battery \<Rightarrow> ndarray \<Rightarrow> fl \<Rightarrow> fl counted" where
  "get_calc_ocp self curve drive_pot =
     (case setitem curve 0 drive_pot of
        Inl e \<Rightarrow> raiseC e
      | Inr new_charge_curve \<Rightarrow> compute_ocp self drive_pot new_charge_curve)"

definition get_slope_intercept :: "fl \<times> fl \<Rightarrow> fl \<times> fl \<Rightarrow> error + fl \<times> fl" where
  "get_slope_intercept pt1 pt2 =
     (if fl_eq (fl_sub (fst pt1) (fst pt2)) (Num 0) then Inl ZeroDivisionError
      else let slope = fl_div (fl_sub (snd pt1) (snd pt2)) (fl_sub (fst pt1) (fst pt2));
               intercept = fl_sub (snd pt1) (fl_mul slope (fst pt1))
           in Inr (slope, intercept))"

text \<open>
  \<open>guess_drive_pot\<close>. The local variable \<open>guess_drive_pot\<close> of the source is written
  \<open>guess_pot\<close>. The \<open>assert\<close> is taken as enabled (Python without \<open>-O\<close>).
\<close>

definition guess_drive_pot ::
  "diffusion_battery \<Rightarrow> ndarray \<Rightarrow> (fl \<Rightarrow> ndarray \<Rightarrow> fl counted) \<Rightarrow>
     (ndarray \<Rightarrow> fl \<Rightarrow> fl counted) \<Rightarrow> fl \<Rightarrow> fl counted" where
  "guess_drive_pot self curve get_val_from_charge_curve
       get_val_from_charge_curve_and_drive_pot target_val =
     (case getitem (items curve) 0 of
        Inl e \<Rightarrow> raiseC e
      | Inr drive_pot \<Rightarrow>
          bindC (get_val_from_charge_curve drive_pot curve)
            (\<lambda>actual_val.
               if fl_eq actual_val target_val then returnC drive_pot
               else let point1 = (actual_val, drive_pot)
                    in bindC (get_val_from_charge_curve_and_drive_pot curve drive_pot)
                         (\<lambda>paired_val.
                            if \<not> fl_eq actual_val paired_val then raiseC AssertionError
                            else let guess_pot = fl_add drive_pot (Num 1)
                                 in case setitem curve 0 guess_pot of
                                      Inl e \<Rightarrow> raiseC e
                                    | Inr guess_charge_y \<Rightarrow>
                                        bindC (get_val_from_charge_curve guess_pot guess_charge_y)
                                          (\<lambda>guess_val.
                                             let point2 = (guess_val, guess_pot)
                                             in case get_slope_intercept point1 point2 of
                                                  Inl e \<Rightarrow> raiseC e
                                                | Inr (slope, intercept) \<Rightarrow>
                                                    returnC (fl_add (fl_mul slope target_val)
                                                               intercept)))))"

definition get_driver_for_target_current :: "diffusion_battery \<Rightarrow> fl \<Rightarrow> fl counted" where
  "get_driver_for_target_current self target_influx =
     guess_drive_pot self (charge_curve self) (compute_current self) (get_calc_current self)
       target_influx"

definition get_driver_for_target_ocp :: "diffusion_battery \<Rightarrow> fl \<Rightarrow> fl counted" where
  "get_driver_for_target_ocp self target_ocp =
     guess_drive_pot self (charge_curve self) (compute_ocp self) (get_calc_ocp self)
       target_ocp"

text \<open>
  \<open>apply_potential\<close> mutates the battery: the result is the returned pair or the
  exception, together with the battery as the call leaves it. The new curve is stored
  before \<open>new_charge_curve[1]\<close> is read, so an IndexError there leaves it stored.
\<close>

definition apply_potential ::
  "diffusion_battery \<Rightarrow> fl \<Rightarrow> (error + fl \<times> fl) \<times> diffusion_battery" where
  "apply_potential self potential =
     (case compute_charge_curve self potential (charge_curve self) of
        Inl e \<Rightarrow> (Inl e, self)
      | Inr new_charge_curve \<Rightarrow>
          (let self1 = self\<lparr>charge_curve := new_charge_curve\<rparr>
           in case getitem (items new_charge_curve) 1 of
                Inl e \<Rightarrow> (Inl e, self1)
              | Inr v \<Rightarrow>
                  (let self2 = self1\<lparr>ocp := v\<rparr>;
                       prior_soc = soc self2;
                       self3 = self2\<lparr>soc := fl_sum (items (charge_curve self2))\<rparr>;
                       timestep_current = fl_sub (soc self3) prior_soc
                   in (Inr (ocp self3, timestep_current), self3))))"

section \<open>The test program (battery/tester_program.py, battery/config.py)\<close>

text \<open>
  The module constants of \<open>config.py\<close> that the program reads are the fields of a
  record, so that a property can be stated for other thresholds than the shipped ones.
\<close>

record config =
  CHARGE_CC :: real
  CHARGE_CV :: real
  DISCHARGE_CV :: real
  ZERO_CURRENT_THRESHOLD :: real
  REST_TIMESTEPS :: int
  DPOT_INIT :: real

definition shipped_config :: config where
  "shipped_config =
     \<lparr>CHARGE_CC = 15, CHARGE_CV = 4, DISCHARGE_CV = 0, ZERO_CURRENT_THRESHOLD = 1,
      REST_TIMESTEPS = 20, DPOT_INIT = 0\<rparr>"

text \<open>
  The attribute \<open>step\<close> is a string; the five names the program knows are constructors
  and any other string is \<open>Step_other\<close>.
\<close>

datatype step_name =
    Step_CHARGE_CC
  | Step_CHARGE_CV
  | Step_REST
  | Step_DISCHARGE_CC
  | Step_DISCHARGE_CV
  | Step_other string

record tester_program =
  charge_cv :: real
  driver :: fl
  timestep :: int
  timesteps_in_step :: int
  step :: step_name

definition new_tester_program :: "config \<Rightarrow> tester_program" where
  "new_tester_program cfg =
     \<lparr>charge_cv = CHARGE_CV cfg, driver = Num (DPOT_INIT cfg), timestep = 1,
      timesteps_in_step = 1, step = Step_CHARGE_CC\<rparr>"

text \<open>\<open>self.driver = battery.get_driver_for_target_...(...)\<close>: an exception of the solver
  leaves the driver as it was.\<close>

definition store_driver :: "tester_program \<Rightarrow> fl counted \<Rightarrow> (error + unit) \<times> tester_program" where
  "store_driver self r =
     (case fst r of
        Inl e \<Rightarrow> (Inl e, self)
      | Inr d \<Rightarrow> (Inr (), self\<lparr>driver := d\<rparr>))"

text \<open>
  \<open>advance\<close> calls itself after a change of step. The first argument bounds the depth
  of these calls: \<open>None\<close> says that the bound was too small. The result is the
  exception or the normal return, together with the program as the call leaves it. The
  locals \<open>step\<close> and \<open>timesteps_in_step\<close>, read before the counters are incremented,
  are written \<open>step0\<close> and \<open>timesteps_in_step0\<close>. \<open>a >= b\<close> is \<open>b <= a\<close> and
  \<open>a > b\<close> is \<open>b < a\<close>.
\<close>

fun advance ::
  "nat \<Rightarrow> config \<Rightarrow> tester_program \<Rightarrow> diffusion_battery \<Rightarrow> fl \<Rightarrow> bool \<Rightarrow>
     ((error + unit) \<times> tester_program) option" where
  "advance 0 cfg self battery current increment_timesteps = None"
| "advance (Suc depth) cfg self battery current increment_timesteps =
     (let step0 = step self;
          timesteps_in_step0 = timesteps_in_step self;
          self1 = (if increment_timesteps
                   then self\<lparr>timestep := timestep self + 1,
                              timesteps_in_step := timesteps_in_step self + 1\<rparr>
                   else self);
          pot = ocp battery
      in case step0 of
           Step_CHARGE_CC \<Rightarrow>
             if fl_le (Num (CHARGE_CV cfg)) pot
             then advance depth cfg (self1\<lparr>step := Step_CHARGE_CV\<rparr>) battery current False
             else let target_current = Num (CHARGE_CC cfg)
                  in Some (store_driver self1
                             (get_driver_for_target_current battery target_current))
         | Step_CHARGE_CV \<Rightarrow>
             if fl_less current (Num (ZERO_CURRENT_THRESHOLD cfg))
             then advance depth cfg (self1\<lparr>step := Step_REST\<rparr>) battery current False
             else let target_pot = Num (CHARGE_CV cfg)
                  in Some (store_driver self1 (get_driver_for_target_ocp battery target_pot))
         | Step_REST \<Rightarrow>
             if timesteps_in_step0 > REST_TIMESTEPS cfg
             then advance depth cfg (self1\<lparr>step := Step_DISCHARGE_CC\<rparr>) battery current False
             else let target_current = Num 0
                  in Some (store_driver self1
                             (get_driver_for_target_current battery target_current))
         | Step_DISCHARGE_CC \<Rightarrow>
             if fl_le pot (Num (DISCHARGE_CV cfg))
             then advance depth cfg (self1\<lparr>step := Step_DISCHARGE_CV\<rparr>) battery current False
             else let target_current = Num (- CHARGE_CC cfg)
                  in Some (store_driver self1
                             (get_driver_for_target_current battery target_current))
         | Step_DISCHARGE_CV \<Rightarrow>
             if fl_less (Num (- ZERO_CURRENT_THRESHOLD cfg)) current
             then advance depth cfg (self1\<lparr>step := Step_CHARGE_CC\<rparr>) battery current False
             else let target_pot = Num (DISCHARGE_CV cfg)
                  in Some (store_driver self1 (get_driver_for_target_ocp battery target_pot))
         | Step_other s \<Rightarrow> Some (Inl (UnrecognizedStep s), self1))"

section \<open>Concrete inputs\<close>

text \<open>
  The battery of \<open>tests/test_diffusion_battery.py\<close>: the constructor's \<open>soc = 0\<close> and
  \<open>ocp = 0\<close>, then \<open>cathode_width = 3\<close> and \<open>charge_curve = np.array([1, 2, 3])\<close>,
  an \<open>int64\<close> array.
\<close>

definition test_battery :: diffusion_battery where
  "test_battery =
     \<lparr>soc = Num 0, ocp = Num 0, charge_curve = Int64 [1, 2, 3], cathode_width = 3\<rparr>"

text \<open>
  A stub observation \<open>f(p) = a * p + b\<close> that ignores the curve and costs no diffusion
  update, as the first function argument of \<open>guess_drive_pot\<close> and as the closure
  factory that is its second.
\<close>

definition linear_observe :: "real \<Rightarrow> real \<Rightarrow> fl \<Rightarrow> ndarray \<Rightarrow> fl counted" where
  "linear_observe a b drive_pot curve = returnC (fl_add (fl_mul (Num a) drive_pot) (Num b))"

definition linear_observe_closure :: "real \<Rightarrow> real \<Rightarrow> ndarray \<Rightarrow> fl \<Rightarrow> fl counted" where
  "linear_observe_closure a b curve drive_pot =
     returnC (fl_add (fl_mul (Num a) drive_pot) (Num b))"

text \<open>
  A program in its constant-voltage charge step after 29 timesteps: both counters
  started at 1 and were incremented by each call.
\<close>

definition program_charging_at_30 :: tester_program where
  "program_charging_at_30 =
     \<lparr>charge_cv = 4, driver = Num 0, timestep = 30, timesteps_in_step = 30,
      step = Step_CHARGE_CV\<rparr>"

text \<open>A battery of the same width whose curve is all zeros, as a new battery's is.\<close>

definition idle_battery :: diffusion_battery where
  "idle_battery =
     \<lparr>soc = Num 0, ocp = Num 0, charge_curve = Int64 [0, 0, 0], cathode_width = 3\<rparr>"


text \<open>
  Thresholds that are not the shipped ones: the charge voltage is lowered to the
  discharge voltage.
\<close>

definition level_config :: config where
  "level_config = shipped_config\<lparr>CHARGE_CV := 0\<rparr>"

section \<open>The solver\<close>

lemmas counted_defs = returnC_def raiseC_def bindC_def

subsection \<open>Stores and reads\<close>

lemma py_trunc_of_int [simp]: "py_trunc (of_int i) = i"
  by (simp add: py_trunc_def)

lemma py_trunc_numeral [simp]:
  "py_trunc 0 = 0" "py_trunc 1 = 1" "py_trunc (numeral n) = numeral n"
  by (simp_all add: py_trunc_def)

lemma fl_eq_refl: "fl_eq v v = is_number v"
  by (cases v) simp_all

lemma fl_eq_Num: "fl_eq (Num x) v \<longleftrightarrow> v = Num x"
  by (cases v) auto

text \<open>
  Storing at index 0 the value read there gives the array back: a float into a
  \<open>float64\<close> array, and an integer, which truncation leaves alone, into an \<open>int64\<close>
  array.
\<close>

lemma setitem_own_head:
  "getitem (items curve) 0 = Inr v \<Longrightarrow> setitem curve 0 v = Inr curve"
  by (cases curve) (auto simp: getitem_def nth_map split: if_splits)

lemma setitem_length:
  "setitem curve i v = Inr y \<Longrightarrow> length (items y) = length (items curve)"
  by (cases curve) (auto split: if_splits fl.splits)

lemma calc_current_paired:
  "getitem (items curve) 0 = Inr p \<Longrightarrow>
     get_calc_current self curve p = compute_current self p curve"
  by (simp add: get_calc_current_def setitem_own_head)

lemma calc_ocp_paired:
  "getitem (items curve) 0 = Inr p \<Longrightarrow> get_calc_ocp self curve p = compute_ocp self p curve"
  by (simp add: get_calc_ocp_def setitem_own_head)

text \<open>The exceptions a diffusion update can raise.\<close>

lemma setitem_error: "setitem curve i v = Inl e \<Longrightarrow> e = IndexError \<or> e = ValueError"
  by (cases curve) (auto split: if_splits fl.splits)

lemma np_convolve_same_error: "np_convolve_same a v = Inl e \<Longrightarrow> e = ValueError"
  by (auto simp: np_convolve_same_def Let_def split: if_splits)

lemma diffuse_error: "diffuse self y = Inl e \<Longrightarrow> e = ValueError"
  by (auto simp: diffuse_def Let_def split: if_splits sum.splits dest: np_convolve_same_error)

lemma compute_charge_curve_error:
  "compute_charge_curve self p curve = Inl e \<Longrightarrow> e = IndexError \<or> e = ValueError"
  by (auto simp: compute_charge_curve_def Let_def split: sum.splits
      dest: diffuse_error setitem_error)

lemma compute_current_error:
  "fst (compute_current self p curve) = Inl e \<Longrightarrow> e = IndexError \<or> e = ValueError"
  by (auto simp: compute_current_def call_compute_charge_curve_def counted_defs
      split: sum.splits dest: compute_charge_curve_error)

lemma compute_ocp_error:
  "fst (compute_ocp self p curve) = Inl e \<Longrightarrow> e = IndexError \<or> e = ValueError"
  by (auto simp: compute_ocp_def call_compute_charge_curve_def counted_defs getitem_def
      split: sum.splits if_splits dest: compute_charge_curve_error)

text \<open>
  When the closure reproduces the first observation, the observation is a number and the
  observation function never raises AssertionError, neither does the solver.
\<close>

lemma guess_no_assertion:
  assumes pair: "\<And>p. getitem (items curve) 0 = Inr p \<Longrightarrow> g curve p = f p curve"
    and f: "\<And>p c. fst (f p c) \<noteq> Inl AssertionError"
    and num: "\<And>p v. getitem (items curve) 0 = Inr p \<Longrightarrow> fst (f p curve) = Inr v \<Longrightarrow> is_number v"
  shows "fst (guess_drive_pot self curve f g target) \<noteq> Inl AssertionError"
proof (cases "getitem (items curve) 0")
  case (Inl e)
  then have "e = IndexError" by (auto simp: getitem_def split: if_splits)
  with Inl show ?thesis by (simp add: guess_drive_pot_def counted_defs)
next
  case (Inr p)
  obtain r0 n0 where r0: "f p curve = (r0, n0)" by (cases "f p curve")
  from f[of p curve] r0 have a0: "r0 \<noteq> Inl AssertionError" by simp
  have g0: "g curve p = (r0, n0)" using pair[OF Inr] r0 by simp
  show ?thesis
  proof (cases r0)
    case (Inl e)
    with a0 Inr r0 show ?thesis by (simp add: guess_drive_pot_def counted_defs)
  next
    case v: (Inr v)
    from num[OF Inr, of v] r0 v have nv: "is_number v" by simp
    show ?thesis
    proof (cases "setitem curve 0 (fl_add p (Num 1))")
      case (Inl e)
      with setitem_error[OF Inl] Inr r0 g0 v nv show ?thesis
        by (auto simp: guess_drive_pot_def counted_defs Let_def fl_eq_refl)
    next
      case y: (Inr y)
      obtain r1 n1 where r1: "f (fl_add p (Num 1)) y = (r1, n1)"
        by (cases "f (fl_add p (Num 1)) y")
      from f[of "fl_add p (Num 1)" y] r1 have "r1 \<noteq> Inl AssertionError" by simp
      then show ?thesis
        using Inr r0 g0 v nv y r1
        by (auto simp: guess_drive_pot_def counted_defs Let_def fl_eq_refl
            get_slope_intercept_def split: sum.splits)
    qed
  qed
qed

lemma guess_linear:
  assumes "a \<noteq> 0" "getitem (items curve) 0 = Inr (Num p0)"
  shows "fst (guess_drive_pot self curve (linear_observe a b) (linear_observe_closure a b)
                (Num target))
    = Inr (Num (if a * p0 + b = target then p0 else target / a + (p0 - (a * p0 + b) / a)))"
proof -
  have d: "a * p0 - a * (p0 + 1) = - a" by (simp add: algebra_simps)
  obtain y where y: "setitem curve 0 (Num (p0 + 1)) = Inr y"
    using assms(2) by (cases curve) (auto simp: getitem_def split: if_splits)
  show ?thesis
    using assms
    by (simp add: guess_drive_pot_def linear_observe_def linear_observe_closure_def
        counted_defs get_slope_intercept_def Let_def d y)
qed

text \<open>
  C5. Take a call of \<open>guess_drive_pot\<close> on a curve whose index 0 holds \<open>p0\<close>, with
  \<open>guess_charge_y\<close> the copy whose index 0 holds \<open>p0 + 1\<close>, and whose observations
  return numbers: \<open>v0\<close> at \<open>p0\<close> (from the observation function and from the
  paired closure, so that the assertion passes) and \<open>v1\<close> at \<open>p0 + 1\<close>. The call
  raises ZeroDivisionError exactly when \<open>v0 = v1\<close> and \<open>v0\<close> differs from the
  target; the exception is the result of the call, no number is returned in its place;
  and when \<open>v0 \<noteq> v1\<close> the call returns.
\<close>

theorem guess_drive_pot_zero_division:
  assumes "getitem (items curve) 0 = Inr p0"
    and "setitem curve 0 (fl_add p0 (Num 1)) = Inr guess_charge_y"
    and "fst (get_val p0 curve) = Inr (Num v0)"
    and "fst (get_val_cd curve p0) = Inr (Num v0)"
    and "fst (get_val (fl_add p0 (Num 1)) guess_charge_y) = Inr (Num v1)"
  shows "(fst (guess_drive_pot self curve get_val get_val_cd (Num target)) = Inl ZeroDivisionError
            \<longleftrightarrow> v0 = v1 \<and> v0 \<noteq> target)
       \<and> (v0 = v1 \<and> v0 \<noteq> target \<longrightarrow>
            (\<forall>p. fst (guess_drive_pot self curve get_val get_val_cd (Num target)) \<noteq> Inr p))
       \<and> (v0 \<noteq> v1 \<longrightarrow>
            (\<exists>p. fst (guess_drive_pot self curve get_val get_val_cd (Num target)) = Inr p))"
proof -
  obtain n0 where r0: "get_val p0 curve = (Inr (Num v0), n0)"
    using assms(3) by (cases "get_val p0 curve") simp
  obtain n1 where r1: "get_val (fl_add p0 (Num 1)) guess_charge_y = (Inr (Num v1), n1)"
    using assms(5) by (cases "get_val (fl_add p0 (Num 1)) guess_charge_y") simp
  obtain n2 where r2: "get_val_cd curve p0 = (Inr (Num v0), n2)"
    using assms(4) by (cases "get_val_cd curve p0") simp
  show ?thesis
    using assms(1,2) r0 r1 r2
    by (auto simp: guess_drive_pot_def counted_defs Let_def get_slope_intercept_def
        split: sum.splits if_splits)
qed

theorem guess_drive_pot_zero_division_witness:
  "fst (guess_drive_pot test_battery (Int64 [1, 2, 3]) (linear_observe 0 5)
          (linear_observe_closure 0 5) (Num 3)) = Inl ZeroDivisionError
   \<and> (\<exists>p. fst (guess_drive_pot test_battery (Int64 [1, 2, 3]) (linear_observe 2 5)
          (linear_observe_closure 2 5) (Num 3)) = Inr p)"
proof -
  have c: "getitem (items (Int64 [1, 2, 3])) 0 = Inr (Num 1)" by (simp add: getitem_def)
  have y: "setitem (Int64 [1, 2, 3]) 0 (fl_add (Num 1) (Num 1)) = Inr (Int64 [2, 2, 3])"
    by simp
  have "fst (guess_drive_pot test_battery (Int64 [1, 2, 3]) (linear_observe 0 5)
          (linear_observe_closure 0 5) (Num 3)) = Inl ZeroDivisionError"
    using guess_drive_pot_zero_division
      [of "Int64 [1, 2, 3]" "Num 1" "Int64 [2, 2, 3]" "linear_observe 0 5" 5
          "linear_observe_closure 0 5" 5 test_battery 3, OF c y]
    by (simp add: linear_observe_def linear_observe_closure_def returnC_def)
  moreover have "\<exists>p. fst (guess_drive_pot test_battery (Int64 [1, 2, 3]) (linear_observe 2 5)
          (linear_observe_closure 2 5) (Num 3)) = Inr p"
    using guess_drive_pot_zero_division
      [of "Int64 [1, 2, 3]" "Num 1" "Int64 [2, 2, 3]" "linear_observe 2 5" 7
          "linear_observe_closure 2 5" 9 test_battery 3, OF c y]
    by (simp add: linear_observe_def linear_observe_closure_def returnC_def)
  ultimately show ?thesis by simp
qed

text \<open>
  C6. For the exactly linear observation \<open>f(p) = a * p + b\<close> with \<open>a \<noteq> 0\<close>, any
  \<open>b\<close> and any target, \<open>guess_drive_pot\<close> on a curve whose index 0 holds a number
  returns a driving potential \<open>p\<close> with \<open>f(p) = target\<close>, in exact arithmetic.
\<close>

theorem guess_drive_pot_linear_inversion:
  assumes "a \<noteq> 0" "getitem (items curve) 0 = Inr (Num p0)"
  shows "\<exists>p. fst (guess_drive_pot self curve (linear_observe a b)
                 (linear_observe_closure a b) (Num target)) = Inr (Num p)
             \<and> a * p + b = target"
proof -
  let ?p = "if a * p0 + b = target then p0 else target / a + (p0 - (a * p0 + b) / a)"
  have "a * ?p + b = target" using assms(1) by (simp add: field_simps)
  with guess_linear[OF assms] show ?thesis by blast
qed

theorem guess_drive_pot_linear_inversion_witness:
  "\<exists>p. fst (guess_drive_pot test_battery (Int64 [1, 2, 3]) (linear_observe 2 5)
            (linear_observe_closure 2 5) (Num 3)) = Inr (Num p)
        \<and> 2 * p + 5 = 3"
proof -
  have a: "(2::real) \<noteq> 0" by simp
  have c: "getitem (items (Int64 [1, 2, 3])) 0 = Inr (Num 1)" by (simp add: getitem_def)
  show ?thesis
    by (rule guess_drive_pot_linear_inversion[OF a c])
qed

section \<open>The test program\<close>

lemma store_driver_fields [simp]:
  "timestep (snd (store_driver self r)) = timestep self"
  "timesteps_in_step (snd (store_driver self r)) = timesteps_in_step self"
  "step (snd (store_driver self r)) = step self"
  by (simp_all add: store_driver_def split: sum.splits)

text \<open>A call that consumes a timestep adds one to the global counter, another adds nothing.\<close>

lemma advance_timestep:
  "advance d cfg self battery current inc = Some res \<Longrightarrow>
     timestep (snd res) = (if inc then timestep self + 1 else timestep self)"
proof (induction d arbitrary: self inc res)
  case 0
  then show ?case by simp
next
  case (Suc d)
  show ?case
  proof (cases "step self")
    case Step_CHARGE_CC
    with Suc.prems Suc.IH show ?thesis
      by (auto simp: Let_def split: if_splits)
  next
    case Step_CHARGE_CV
    with Suc.prems Suc.IH show ?thesis
      by (auto simp: Let_def split: if_splits)
  next
    case Step_REST
    with Suc.prems Suc.IH show ?thesis
      by (auto simp: Let_def split: if_splits)
  next
    case Step_DISCHARGE_CC
    with Suc.prems Suc.IH show ?thesis
      by (auto simp: Let_def split: if_splits)
  next
    case Step_DISCHARGE_CV
    with Suc.prems Suc.IH show ?thesis
      by (auto simp: Let_def split: if_splits)
  next
    case (Step_other s)
    with Suc.prems show ?thesis
      by (auto simp: Let_def split: if_splits)
  qed
qed

text \<open>
  The counter \<open>timesteps_in_step\<close> does the same: no change of step sets it back.
\<close>

lemma advance_timesteps_in_step:
  "advance d cfg self battery current inc = Some res \<Longrightarrow>
     timesteps_in_step (snd res)
       = (if inc then timesteps_in_step self + 1 else timesteps_in_step self)"
proof (induction d arbitrary: self inc res)
  case 0
  then show ?case by simp
next
  case (Suc d)
  show ?case
  proof (cases "step self")
    case Step_CHARGE_CC
    with Suc.prems Suc.IH show ?thesis
      by (auto simp: Let_def split: if_splits)
  next
    case Step_CHARGE_CV
    with Suc.prems Suc.IH show ?thesis
      by (auto simp: Let_def split: if_splits)
  next
    case Step_REST
    with Suc.prems Suc.IH show ?thesis
      by (auto simp: Let_def split: if_splits)
  next
    case Step_DISCHARGE_CC
    with Suc.prems Suc.IH show ?thesis
      by (auto simp: Let_def split: if_splits)
  next
    case Step_DISCHARGE_CV
    with Suc.prems Suc.IH show ?thesis
      by (auto simp: Let_def split: if_splits)
  next
    case (Step_other s)
    with Suc.prems show ?thesis
      by (auto simp: Let_def split: if_splits)
  qed
qed

text \<open>A call that returns within some depth returns the same within any greater depth.\<close>

lemma advance_more_depth:
  "advance d cfg self battery current inc = Some res \<Longrightarrow>
   advance (d + k) cfg self battery current inc = Some res"
proof (induction d arbitrary: self inc)
  case 0
  then show ?case by simp
next
  case (Suc d)
  show ?case
  proof (cases "step self")
    case Step_CHARGE_CC
    with Suc.prems Suc.IH show ?thesis
      by (auto simp: Let_def split: if_splits)
  next
    case Step_CHARGE_CV
    with Suc.prems Suc.IH show ?thesis
      by (auto simp: Let_def split: if_splits)
  next
    case Step_REST
    with Suc.prems Suc.IH show ?thesis
      by (auto simp: Let_def split: if_splits)
  next
    case Step_DISCHARGE_CC
    with Suc.prems Suc.IH show ?thesis
      by (auto simp: Let_def split: if_splits)
  next
    case Step_DISCHARGE_CV
    with Suc.prems Suc.IH show ?thesis
      by (auto simp: Let_def split: if_splits)
  next
    case (Step_other s)
    with Suc.prems show ?thesis
      by (auto simp: Let_def split: if_splits)
  qed
qed

text \<open>
  With the charge threshold above the discharge threshold, five frames (the external call
  and four changes of step) always suffice: no potential is at or above the one and at or
  below the other, and NaN is neither.
\<close>

lemma fl_le_between: "fl_le (Num a) v \<Longrightarrow> fl_le v (Num b) \<Longrightarrow> a \<le> b"
  by (cases v) simp_all

lemma advance_five:
  assumes "DISCHARGE_CV cfg < CHARGE_CV cfg"
  shows "advance (Suc (Suc (Suc (Suc (Suc 0))))) cfg self battery current inc \<noteq> None"
  using assms
  by (cases "step self") (auto simp: Let_def dest: fl_le_between)


lemma level_config_fields:
  "CHARGE_CV level_config = 0" "DISCHARGE_CV level_config = 0"
  "ZERO_CURRENT_THRESHOLD level_config = 1" "REST_TIMESTEPS level_config = 20"
  by (simp_all add: level_config_def shipped_config_def)

text \<open>
  Without that order of the thresholds the calls need not end: with both at 0, a battery
  at potential 0, no current and a step counter above the rest time, every exit condition
  fires, whatever the depth allowed.
\<close>

lemma advance_needs_thresholds:
  assumes "timesteps_in_step self > 20" "\<forall>s. step self \<noteq> Step_other s"
  shows "advance d level_config self test_battery (Num 0) inc = None"
  using assms
proof (induction d arbitrary: self inc)
  case 0
  show ?case by simp
next
  case (Suc d)
  have o: "ocp test_battery = Num 0" by (simp add: test_battery_def)
  show ?case
  proof (cases "step self")
    case Step_CHARGE_CC
    with Suc.prems show ?thesis
      by (simp add: Let_def o level_config_fields Suc.IH)
  next
    case Step_CHARGE_CV
    with Suc.prems show ?thesis
      by (simp add: Let_def o level_config_fields Suc.IH)
  next
    case Step_REST
    with Suc.prems show ?thesis
      by (simp add: Let_def o level_config_fields Suc.IH)
  next
    case Step_DISCHARGE_CC
    with Suc.prems show ?thesis
      by (simp add: Let_def o level_config_fields Suc.IH)
  next
    case Step_DISCHARGE_CV
    with Suc.prems show ?thesis
      by (simp add: Let_def o level_config_fields Suc.IH)
  next
    case (Step_other s)
    with Suc.prems show ?thesis by simp
  qed
qed

text \<open>
  C10. When \<open>CHARGE_CV > DISCHARGE_CV\<close>, every call of \<open>advance\<close> ends: a depth of
  five frames (the external call and at most four changes of step, each a call with
  \<open>increment_timesteps=False\<close>) is enough, a greater depth gives the same result, and
  the global timestep counter has grown by exactly one after a call with
  \<open>increment_timesteps=True\<close> (and not at all after a call with \<open>False\<close>).
\<close>

theorem advance_terminates:
  assumes "DISCHARGE_CV cfg < CHARGE_CV cfg" and "5 \<le> depth"
  shows "\<exists>res. advance depth cfg self battery current increment_timesteps = Some res
            \<and> advance 5 cfg self battery current increment_timesteps = Some res
            \<and> timestep (snd res)
                = (if increment_timesteps then timestep self + 1 else timestep self)"
proof -
  have five: "(5::nat) = Suc (Suc (Suc (Suc (Suc 0))))" by simp
  from advance_five[OF assms(1)] obtain res
    where res: "advance 5 cfg self battery current increment_timesteps = Some res"
    unfolding five by blast
  from assms(2) have "depth = 5 + (depth - 5)" by simp
  with advance_more_depth[OF res, of "depth - 5"]
  have "advance depth cfg self battery current increment_timesteps = Some res" by simp
  with res advance_timestep[OF res] show ?thesis by blast
qed

theorem advance_terminates_witness:
  "DISCHARGE_CV shipped_config < CHARGE_CV shipped_config
   \<and> (\<exists>res. advance 1000 shipped_config (new_tester_program shipped_config) test_battery (Num 0) True
               = Some res
             \<and> advance 5 shipped_config (new_tester_program shipped_config) test_battery (Num 0) True
               = Some res
             \<and> timestep (snd res) = 2)"
proof -
  have h: "DISCHARGE_CV shipped_config < CHARGE_CV shipped_config"
    by (simp add: shipped_config_def)
  have d: "(5::nat) \<le> 1000" by simp
  show ?thesis
    using h advance_terminates
      [OF h d, of "new_tester_program shipped_config" test_battery "Num 0" True]
    by (simp add: new_tester_program_def)
qed

text \<open>
  C2. The rest step should last at least \<open>REST_TIMESTEPS = 20\<close> consumed timesteps. On
  the program above, in its constant-voltage charge step with both counters at 30, a call
  with a current below the threshold switches to the rest step and goes on, without
  consuming a timestep, as the call on the rest step with \<open>increment_timesteps=False\<close>;
  that call reads the counter \<open>timesteps_in_step = 31 > 20\<close>, which no change of step
  has reset, and leaves the rest step at once: the call ends in the constant-current
  discharge step, and the rest step has lasted no timestep at all.
\<close>

theorem rest_step_skipped:
  "advance 5 shipped_config program_charging_at_30 (test_battery\<lparr>ocp := Num 2\<rparr>) (Num 0) True
     = advance 4 shipped_config
         (program_charging_at_30\<lparr>timestep := 31, timesteps_in_step := 31, step := Step_REST\<rparr>)
         (test_battery\<lparr>ocp := Num 2\<rparr>) (Num 0) False
   \<and> map_option (\<lambda>res. (step (snd res), timestep (snd res)))
         (advance 5 shipped_config program_charging_at_30 (test_battery\<lparr>ocp := Num 2\<rparr>) (Num 0) True)
       = Some (Step_DISCHARGE_CC, 31)"
proof -
  have five: "(5::nat) = Suc (Suc (Suc (Suc (Suc 0))))"
    and four: "(4::nat) = Suc (Suc (Suc (Suc 0)))" by simp_all
  show ?thesis
    unfolding five four
    by (simp add: shipped_config_def program_charging_at_30_def Let_def)
qed

section \<open>The diffusion update\<close>

subsection \<open>The kernel\<close>

lemma length_np_arange: "length (np_arange start stop dx) = nat \<lceil>(stop - start) / dx\<rceil>"
  by (simp add: np_arange_def)

lemma length_kernel_gx: "length (kernel_gx self) = nat \<lceil>6 * kernel_sigma self + 1\<rceil>"
  by (simp add: kernel_gx_def Let_def length_np_arange)

lemma length_kernel_gaussian: "length (kernel_gaussian self) = length (kernel_gx self)"
  by (simp add: kernel_gaussian_def Let_def)

text \<open>For a width other than 0 the kernel's values are numbers.\<close>

lemma gauss_value_pos: "sigma \<noteq> 0 \<Longrightarrow> 0 < gauss_value sigma x"
  by (simp add: gauss_value_def)

lemma normal_density_Num: "sigma \<noteq> 0 \<Longrightarrow> normal_density sigma x = Num (gauss_value sigma x)"
  by (simp add: normal_density_def gauss_value_def)

lemma fl_sum_Num: "fl_sum (map (\<lambda>x. Num (f x)) xs) = Num (sum_list (map f xs))"
  by (induction xs) simp_all

lemma sum_list_pos: "xs \<noteq> [] \<Longrightarrow> (\<And>x. x \<in> set xs \<Longrightarrow> 0 < (x::real)) \<Longrightarrow> 0 < sum_list xs"
  by (induction xs) (auto intro: add_pos_nonneg sum_list_nonneg less_imp_le)

lemma sum_list_divide_const:
  "sum_list (map (\<lambda>x. f x / (c::real)) xs) = sum_list (map f xs) / c"
  by (induction xs) (simp_all add: add_divide_distrib)

lemma gauss_sum_pos:
  "sigma \<noteq> 0 \<Longrightarrow> xs \<noteq> [] \<Longrightarrow> 0 < sum_list (map (gauss_value sigma) xs)"
  by (rule sum_list_pos) (auto simp: gauss_value_pos)

lemma kernel_gaussian_alt:
  assumes "kernel_sigma self \<noteq> 0"
  shows "kernel_gaussian self =
     map (\<lambda>x. Num (gauss_value (kernel_sigma self) x
                      / sum_list (map (gauss_value (kernel_sigma self)) (kernel_gx self))))
       (kernel_gx self)"
proof (cases "kernel_gx self = []")
  case True
  then show ?thesis by (simp add: kernel_gaussian_def)
next
  case False
  let ?g = "gauss_value (kernel_sigma self)"
  have m: "map (normal_density (kernel_sigma self)) (kernel_gx self)
             = map (\<lambda>x. Num (?g x)) (kernel_gx self)"
    by (simp add: normal_density_Num[OF assms])
  have "sum_list (map ?g (kernel_gx self)) \<noteq> 0"
    using gauss_sum_pos[OF assms False] by simp
  then show ?thesis
    by (simp add: kernel_gaussian_def Let_def m fl_sum_Num comp_def
        normal_density_Num[OF assms])
qed

text \<open>They are positive and sum to 1.\<close>

lemma kernel_positive:
  assumes "kernel_sigma self \<noteq> 0" "g \<in> set (kernel_gaussian self)"
  shows "\<exists>x. g = Num x \<and> 0 < x"
proof -
  let ?b = "gauss_value (kernel_sigma self)"
  from assms(2) obtain x where x: "x \<in> set (kernel_gx self)"
    and g: "g = Num (?b x / sum_list (map ?b (kernel_gx self)))"
    by (auto simp: kernel_gaussian_alt[OF assms(1)])
  from x have "kernel_gx self \<noteq> []" by auto
  from gauss_sum_pos[OF assms(1) this] gauss_value_pos[OF assms(1), of x] show ?thesis
    by (simp add: g)
qed

lemma kernel_sum_one:
  assumes "kernel_sigma self \<noteq> 0" "kernel_gaussian self \<noteq> []"
  shows "fl_sum (kernel_gaussian self) = Num 1"
proof -
  let ?b = "gauss_value (kernel_sigma self)"
  let ?s = "sum_list (map ?b (kernel_gx self))"
  have ne: "kernel_gx self \<noteq> []"
    using assms(2) length_kernel_gaussian[of self] by auto
  have "0 < ?s" by (rule gauss_sum_pos[OF assms(1) ne])
  moreover have "fl_sum (kernel_gaussian self) = Num (?s / ?s)"
    by (simp add: kernel_gaussian_alt[OF assms(1)] fl_sum_Num sum_list_divide_const)
  ultimately show ?thesis by simp
qed

text \<open>
  For the width 0 the one sample point is 0, line 86 divides 0 by 0, and the kernel is a
  single NaN.
\<close>

lemma kernel_width_0:
  assumes "cathode_width self = 0"
  shows "kernel_gaussian self = [NaN]"
proof -
  have s: "kernel_sigma self = 0" using assms by (simp add: kernel_sigma_def)
  have "kernel_gx self = [0]"
    by (simp add: kernel_gx_def Let_def np_arange_def s)
  then show ?thesis
    by (simp add: kernel_gaussian_def Let_def s normal_density_def)
qed

text \<open>The kernel of the test battery, of width 3.\<close>

lemma kernel_gx_test_battery: "kernel_gx test_battery = [- 9 / 10, 1 / 10, 11 / 10]"
  by (simp add: kernel_gx_def kernel_sigma_def test_battery_def np_arange_def upt_conv_Cons)

lemma gauss_value_less:
  "sigma \<noteq> 0 \<Longrightarrow> x ^ 2 < y ^ 2 \<Longrightarrow> gauss_value sigma y < gauss_value sigma x"
  by (simp add: gauss_value_def divide_strict_right_mono)

lemma kernel_test_battery:
  obtains g0 g1 g2 where "kernel_gaussian test_battery = [Num g0, Num g1, Num g2]"
    "0 < g0" "0 < g1" "0 < g2" "g2 < g0" "g0 + g1 + g2 = 1"
proof -
  have s: "kernel_sigma test_battery \<noteq> 0" by (simp add: kernel_sigma_def test_battery_def)
  let ?b = "gauss_value (kernel_sigma test_battery)"
  let ?s = "?b (- 9 / 10) + ?b (1 / 10) + ?b (11 / 10)"
  have k: "kernel_gaussian test_battery
             = [Num (?b (- 9 / 10) / ?s), Num (?b (1 / 10) / ?s), Num (?b (11 / 10) / ?s)]"
    by (simp add: kernel_gaussian_alt[OF s] kernel_gx_test_battery add.assoc)
  have pos: "0 < ?s" using gauss_value_pos[OF s] by (simp add: add_pos_pos)
  have lt: "?b (11 / 10) < ?b (- 9 / 10)"
    by (rule gauss_value_less[OF s]) (simp add: power2_eq_square)
  show ?thesis
  proof (rule that[OF k])
    show "0 < ?b (- 9 / 10) / ?s" "0 < ?b (1 / 10) / ?s" "0 < ?b (11 / 10) / ?s"
      using pos gauss_value_pos[OF s] by simp_all
    show "?b (11 / 10) / ?s < ?b (- 9 / 10) / ?s"
      using pos lt by (simp add: divide_strict_right_mono)
    show "?b (- 9 / 10) / ?s + ?b (1 / 10) / ?s + ?b (11 / 10) / ?s = 1"
      using pos by (simp add: add_divide_distrib[symmetric])
  qed
qed

lemma kernel_only_width:
  "cathode_width self = cathode_width other \<Longrightarrow> kernel_gaussian self = kernel_gaussian other"
  by (simp add: kernel_gaussian_def kernel_gx_def kernel_sigma_def)

text \<open>The update of a curve of three samples by a kernel of three samples, written out.\<close>

lemma diffuse_three_samples:
  assumes "kernel_gaussian self = [Num g0, Num g1, Num g2]"
  shows "diffuse self [Num a, Num b, Num c] =
    Inr [Num (a * g2 + a * g1 + b * g0), Num (a * g2 + b * g1 + c * g0),
         Num (b * g2 + c * g1 + c * g0)]"
  by (simp add: diffuse_def assms Let_def np_convolve_same_def np_convolve_full_def
      slice_to_neg_def upt_conv_Cons nth_Cons' nth_append)

lemma diffuse_width_0:
  assumes "kernel_gaussian self = [NaN]"
  shows "diffuse self [a, b, c] = Inr [NaN, NaN, NaN]"
  by (simp add: diffuse_def assms Let_def np_convolve_same_def np_convolve_full_def
      slice_to_neg_def upt_conv_Cons nth_Cons' nth_append)

subsection \<open>The update\<close>

lemma kernel_nonempty: "0 \<le> cathode_width self \<Longrightarrow> kernel_gaussian self \<noteq> []"
proof -
  assume "0 \<le> cathode_width self"
  then have "0 \<le> kernel_sigma self" by (simp add: kernel_sigma_def)
  then have "0 < \<lceil>6 * kernel_sigma self + 1\<rceil>" by (simp add: less_ceiling_iff)
  then have "0 < length (kernel_gaussian self)"
    by (simp add: length_kernel_gx length_kernel_gaussian)
  then show ?thesis by auto
qed

lemma length_np_convolve_full:
  "length (np_convolve_full a v) = length a + length v - 1"
  by (simp add: np_convolve_full_def)

lemma np_convolve_same_longer:
  assumes "v \<noteq> []" "length v \<le> length a"
  shows "np_convolve_same a v =
           Inr (take (length a) (drop (length v - 1 - length v div 2) (np_convolve_full a v)))"
  using assms by (auto simp: np_convolve_same_def Let_def)

lemma slice_as_crop:
  "n \<noteq> 0 \<Longrightarrow> slice_to_neg xs s n = take (length (drop s xs) - n) (drop s xs)"
proof -
  assume "n \<noteq> 0"
  have "length xs - n - s = length xs - s - n" by simp
  with \<open>n \<noteq> 0\<close> show ?thesis by (simp add: slice_to_neg_def drop_take)
qed

text \<open>The code's update is the update in the words of the specification.\<close>

lemma diffuse_eq_spec:
  assumes "kernel_gaussian self \<noteq> []" "curve \<noteq> []"
  shows "diffuse self (curve[0 := p]) = Inr (update_spec self p curve)"
proof -
  let ?g = "kernel_gaussian self"
  let ?y = "curve[0 := p]"
  let ?base = "map (\<lambda>val. Num 0) ?g @ map (\<lambda>val. ?y ! 0) ?g @ ?y @ rev ?y"
  let ?ext = "replicate (length ?g) (Num 0) @ replicate (length ?g) p @ ?y @ rev ?y"
  let ?conv = "take (length ?ext) (drop (length ?g - 1 - length ?g div 2) (np_convolve_full ?ext ?g))"
  have y0: "?y ! 0 = p" using assms(2) by simp
  have base: "?base = ?ext"
    by (simp add: y0 map_replicate_const)
  have len: "length ?g \<le> length ?ext" by simp
  have conv: "np_convolve_same ?ext ?g = Inr ?conv"
    by (rule np_convolve_same_longer[OF assms(1) len])
  have ylen: "length ?y \<noteq> 0" using assms(2) by simp
  have "diffuse self ?y = Inr (slice_to_neg ?conv (2 * length ?g) (length ?y))"
    by (simp add: diffuse_def Let_def base conv)
  also have "slice_to_neg ?conv (2 * length ?g) (length ?y)
        = take (length (drop (2 * length ?g) ?conv) - length ?y) (drop (2 * length ?g) ?conv)"
    by (rule slice_as_crop[OF ylen])
  also have "\<dots> = update_spec self p curve"
    by (simp add: update_spec_def Let_def)
  finally show ?thesis .
qed

lemma length_centred:
  fixes full :: "fl list"
  assumes "0 < k" "length full = m + k - 1"
  shows "length (take m (drop (k - 1 - k div 2) full)) = m"
proof -
  have "k - 1 - k div 2 \<le> k - 1" by simp
  with assms have "m \<le> length full - (k - 1 - k div 2)" by linarith
  then show ?thesis by (simp only: length_take length_drop min_absorb2)
qed

lemma length_cropped:
  assumes "length xs = 2 * k + 2 * n"
  shows "length (take (length (drop (2 * k) xs) - n) (drop (2 * k) xs)) = n"
  using assms by simp

lemma length_update_spec:
  assumes "kernel_gaussian self \<noteq> []"
  shows "length (update_spec self p curve) = length curve"
proof -
  let ?g = "kernel_gaussian self"
  let ?k = "length ?g"
  let ?y = "curve[0 := p]"
  let ?ext = "replicate ?k (Num 0) @ replicate ?k p @ ?y @ rev ?y"
  let ?smoothed = "take (length ?ext) (drop (?k - 1 - ?k div 2) (np_convolve_full ?ext ?g))"
  have k: "0 < ?k" using assms by simp
  have ext: "length ?ext = 2 * ?k + 2 * length curve" by simp
  have full: "length (np_convolve_full ?ext ?g) = length ?ext + ?k - 1"
    by (rule length_np_convolve_full)
  have "length ?smoothed = length ?ext"
    by (rule length_centred[OF k full])
  from this ext have "length ?smoothed = 2 * ?k + 2 * length curve"
    by (rule trans)
  then show ?thesis
    unfolding update_spec_def Let_def by (rule length_cropped)
qed

text \<open>
  What a store at index 0 leaves in the array: the value itself in a \<open>float64\<close> array,
  the value truncated toward zero in an \<open>int64\<close> array.
\<close>

lemma setitem_float64:
  "xs \<noteq> [] \<Longrightarrow> setitem (Float64 xs) 0 p = Inr (Float64 (xs[0 := p]))"
  by simp

lemma setitem_int64:
  "xs \<noteq> [] \<Longrightarrow> setitem (Int64 xs) 0 (Num x) = Inr (Int64 (xs[0 := py_trunc x]))"
  by simp

lemma items_int64_update:
  "items (Int64 (xs[0 := i])) = (items (Int64 xs))[0 := Num (of_int i)]"
  by (simp add: map_update)

lemma compute_charge_curve_float64:
  assumes "0 \<le> cathode_width self" "xs \<noteq> []"
  shows "compute_charge_curve self p (Float64 xs) = Inr (Float64 (update_spec self p xs))"
  using assms diffuse_eq_spec[OF kernel_nonempty[OF assms(1)] assms(2), of p]
  by (simp add: compute_charge_curve_def)

lemma compute_charge_curve_int64:
  assumes "0 \<le> cathode_width self" "xs \<noteq> []"
  shows "compute_charge_curve self (Num x) (Int64 xs)
           = Inr (Float64 (update_spec self (Num (of_int (py_trunc x))) (items (Int64 xs))))"
proof -
  have ne: "items (Int64 xs) \<noteq> []" using assms(2) by simp
  show ?thesis
    using assms(2) diffuse_eq_spec[OF kernel_nonempty[OF assms(1)] ne, of "Num (of_int (py_trunc x))"]
    by (simp add: compute_charge_curve_def map_update)
qed

text \<open>Whenever the update returns, for any width and element type, the curve keeps its length.\<close>

lemma compute_charge_curve_length:
  assumes "compute_charge_curve self p curve = Inr new"
  shows "length (items new) = length (items curve)"
proof -
  from assms obtain y ys where y: "setitem curve 0 p = Inr y"
    and d: "diffuse self (items y) = Inr ys" and new: "new = Float64 ys"
    by (auto simp: compute_charge_curve_def split: sum.splits)
  from y have ly: "length (items y) = length (items curve)"
    by (cases curve) (auto split: if_splits fl.splits)
  from y have ne: "items y \<noteq> []"
    by (cases curve) (auto split: if_splits fl.splits)
  from d have k: "kernel_gaussian self \<noteq> []"
    using ne by (auto simp: diffuse_def Let_def np_convolve_same_def split: if_splits)
  have "(items y)[0 := items y ! 0] = items y" by simp
  with diffuse_eq_spec[OF k ne, of "items y ! 0"] d
  have "ys = update_spec self (items y ! 0) (items y)" by simp
  with length_update_spec[OF k, of "items y ! 0" "items y"] ly new show ?thesis by simp
qed

text \<open>
  The update returns for a width that is not negative, a curve that is not empty and a
  driving potential the curve can hold (any float for a \<open>float64\<close> curve, a number for
  an \<open>int64\<close> curve).
\<close>

lemma compute_charge_curve_returns:
  assumes "0 \<le> cathode_width self" "items curve \<noteq> []" "is_number p"
  shows "\<exists>new. compute_charge_curve self p curve = Inr new"
proof (cases curve)
  case (Int64 xs)
  from assms(3) obtain x where "p = Num x" by (cases p) auto
  with Int64 assms(2) compute_charge_curve_int64[OF assms(1), of xs x] show ?thesis by simp
next
  case (Float64 xs)
  with assms(2) compute_charge_curve_float64[OF assms(1), of xs p] show ?thesis by simp
qed






text \<open>The update in the specification's words, on three samples.\<close>

lemma update_spec_three_samples:
  assumes "kernel_gaussian self = [Num g0, Num g1, Num g2]"
  shows "update_spec self (Num p) [Num a, Num b, Num c] =
    [Num (p * g2 + p * g1 + b * g0), Num (p * g2 + b * g1 + c * g0),
     Num (b * g2 + c * g1 + c * g0)]"
proof -
  have k: "kernel_gaussian self \<noteq> []" by (simp add: assms)
  from diffuse_eq_spec[OF k, of "[Num a, Num b, Num c]" "Num p"]
    diffuse_three_samples[OF assms, of p b c]
  show ?thesis by simp
qed


text \<open>
  C8. After a call of \<open>apply_potential\<close> on a battery whose curve has length
  \<open>N \<ge> 2\<close>, the stored curve is the new curve (of length \<open>N\<close>), the stored \<open>ocp\<close>
  is its value at index 1, the stored \<open>soc\<close> is its sum, and the call returns the
  pair of the new \<open>ocp\<close> and the new \<open>soc\<close> minus the \<open>soc\<close> before the call. The
  call raises only for a negative cathode width or a driving potential that is NaN.
\<close>

theorem apply_potential_recomputes:
  assumes "2 \<le> length (items (charge_curve self))"
  shows "case apply_potential self potential of
           (Inr (new_ocp, timestep_current), self') \<Rightarrow>
             compute_charge_curve self potential (charge_curve self) = Inr (charge_curve self')
             \<and> length (items (charge_curve self')) = length (items (charge_curve self))
             \<and> ocp self' = items (charge_curve self') ! 1
             \<and> soc self' = fl_sum (items (charge_curve self'))
             \<and> new_ocp = ocp self'
             \<and> timestep_current = fl_sub (soc self') (soc self)
         | (Inl e, self') \<Rightarrow> cathode_width self < 0 \<or> potential = NaN"
proof (cases "compute_charge_curve self potential (charge_curve self)")
  case (Inl e)
  from assms have ne: "items (charge_curve self) \<noteq> []" by auto
  have "\<not> (0 \<le> cathode_width self \<and> is_number potential)"
    using compute_charge_curve_returns[OF _ ne, of self potential] Inl by auto
  then have "cathode_width self < 0 \<or> potential = NaN"
    by (cases potential) auto
  with Inl show ?thesis by (simp add: apply_potential_def)
next
  case (Inr new)
  from compute_charge_curve_length[OF Inr] assms have "1 < length (items new)" by simp
  with compute_charge_curve_length[OF Inr] show ?thesis
    by (simp add: apply_potential_def Inr getitem_def Let_def)
qed

theorem apply_potential_recomputes_witness:
  "2 \<le> length (items (charge_curve test_battery))
   \<and> (\<exists>new_ocp timestep_current self'.
         apply_potential test_battery (Num 1) = (Inr (new_ocp, timestep_current), self')
         \<and> length (items (charge_curve self')) = 3
         \<and> ocp self' = items (charge_curve self') ! 1
         \<and> soc self' = fl_sum (items (charge_curve self'))
         \<and> new_ocp = ocp self'
         \<and> timestep_current = fl_sub (soc self') (Num 0))"
proof -
  have l: "2 \<le> length (items (charge_curve test_battery))" by (simp add: test_battery_def)
  have l3: "length (items (charge_curve test_battery)) = 3" and s0: "soc test_battery = Num 0"
    and w: "\<not> cathode_width test_battery < 0"
    by (simp_all add: test_battery_def)
  obtain r self' where ap: "apply_potential test_battery (Num 1) = (r, self')"
    by (cases "apply_potential test_battery (Num 1)")
  note inst = apply_potential_recomputes[OF l, of "Num 1", unfolded ap l3 s0]
  show ?thesis
  proof (cases r)
    case (Inl e)
    with inst w show ?thesis by simp
  next
    case (Inr pr)
    obtain new_ocp timestep_current where pr: "pr = (new_ocp, timestep_current)"
      by (cases pr)
    from inst show ?thesis
      unfolding ap Inr pr using l by simp
  qed
qed

subsection \<open>Numbers stay numbers\<close>

text \<open>
  For a width other than 0, the update of a curve of numbers with a driving potential
  that is a number is a curve of numbers, and so are the observations.
\<close>

lemma is_number_ex: "is_number v \<longleftrightarrow> (\<exists>x. v = Num x)"
  by (cases v) simp_all

lemma is_number_add: "is_number a \<Longrightarrow> is_number b \<Longrightarrow> is_number (fl_add a b)"
  by (auto simp: is_number_ex)

lemma is_number_sub: "is_number a \<Longrightarrow> is_number b \<Longrightarrow> is_number (fl_sub a b)"
  by (auto simp: is_number_ex)

lemma is_number_mul: "is_number a \<Longrightarrow> is_number b \<Longrightarrow> is_number (fl_mul a b)"
  by (auto simp: is_number_ex)

lemma is_number_sum: "list_all is_number xs \<Longrightarrow> is_number (fl_sum xs)"
  by (induction xs) (simp_all add: is_number_add)

lemma items_int64_num: "list_all is_number (items (Int64 xs))"
  by (simp add: list_all_iff)

lemma kernel_all_num: "kernel_sigma self \<noteq> 0 \<Longrightarrow> list_all is_number (kernel_gaussian self)"
  by (simp add: kernel_gaussian_alt list_all_iff)

lemma convolve_all_num:
  assumes "list_all is_number a" "list_all is_number v"
  shows "list_all is_number (np_convolve_full a v)"
proof -
  have a: "\<And>m. m < length a \<Longrightarrow> is_number (a ! m)"
    using assms(1) by (simp add: list_all_length)
  have v: "\<And>m. m < length v \<Longrightarrow> is_number (v ! m)"
    using assms(2) by (simp add: list_all_length)
  show ?thesis
    unfolding np_convolve_full_def
    by (auto simp: list_all_iff intro!: is_number_sum is_number_mul a v)
qed

lemma list_all_take_drop:
  "list_all P xs \<Longrightarrow> list_all P (take n xs)" "list_all P xs \<Longrightarrow> list_all P (drop n xs)"
  by (auto simp: list_all_iff dest: in_set_takeD in_set_dropD)

lemma update_spec_all_num:
  assumes "kernel_sigma self \<noteq> 0" "is_number p" "list_all is_number curve"
  shows "list_all is_number (update_spec self p curve)"
proof -
  let ?k = "length (kernel_gaussian self)"
  let ?y = "curve[0 := p]"
  have y: "list_all is_number ?y"
    using assms(2,3) by (auto simp: list_all_iff dest: set_update_subset_insert[THEN subsetD])
  have "list_all is_number (replicate ?k (Num 0) @ replicate ?k p @ ?y @ rev ?y)"
    using assms(2) y by (auto simp: list_all_iff)
  from convolve_all_num[OF this kernel_all_num[OF assms(1)]] show ?thesis
    by (simp add: update_spec_def Let_def list_all_take_drop)
qed

lemma compute_charge_curve_all_num:
  assumes "0 < cathode_width self" "items curve \<noteq> []" "list_all is_number (items curve)"
    "is_number p"
  shows "\<exists>new. compute_charge_curve self p curve = Inr (Float64 new)
               \<and> length new = length (items curve) \<and> list_all is_number new"
proof -
  have w: "0 \<le> cathode_width self" and s: "kernel_sigma self \<noteq> 0"
    using assms(1) by (simp_all add: kernel_sigma_def)
  note k = kernel_nonempty[OF w]
  show ?thesis
  proof (cases curve)
    case (Int64 xs)
    from assms(4) obtain x where x: "p = Num x" by (auto simp: is_number_ex)
    let ?new = "update_spec self (Num (of_int (py_trunc x))) (items (Int64 xs))"
    have "list_all is_number ?new"
      by (rule update_spec_all_num[OF s _ items_int64_num]) simp
    with Int64 x assms(2) compute_charge_curve_int64[OF w, of xs x]
      length_update_spec[OF k, of "Num (of_int (py_trunc x))" "items (Int64 xs)"]
    show ?thesis by simp
  next
    case (Float64 xs)
    have "list_all is_number (update_spec self p xs)"
      using update_spec_all_num[OF s assms(4)] assms(3) Float64 by simp
    with Float64 assms(2) compute_charge_curve_float64[OF w, of xs p]
      length_update_spec[OF k, of p xs]
    show ?thesis by simp
  qed
qed

lemma compute_current_num:
  assumes "0 < cathode_width self" "items curve \<noteq> []" "list_all is_number (items curve)"
    "is_number p"
  shows "\<exists>v. compute_current self p curve = (Inr (Num v), 1)"
proof -
  from compute_charge_curve_all_num[OF assms] obtain new
    where c: "compute_charge_curve self p curve = Inr (Float64 new)"
      and n: "list_all is_number new" by blast
  have "is_number (fl_sub (fl_sum new) (fl_sum (items curve)))"
    by (intro is_number_sub is_number_sum n assms(3))
  then show ?thesis
    by (simp add: compute_current_def call_compute_charge_curve_def counted_defs c is_number_ex)
qed

lemma compute_ocp_num:
  assumes "0 < cathode_width self" "items curve \<noteq> []" "list_all is_number (items curve)"
    "is_number p"
  shows "\<exists>v. compute_ocp self p curve = (Inr (Num v), 1)"
proof -
  from compute_charge_curve_all_num[OF assms] obtain new
    where c: "compute_charge_curve self p curve = Inr (Float64 new)"
      and l: "length new = length (items curve)"
      and n: "list_all is_number new" by blast
  from l assms(2) have pos: "0 < length new" by simp
  with n have "is_number (new ! 0)" by (simp add: list_all_length)
  with pos show ?thesis
    by (simp add: compute_ocp_def call_compute_charge_curve_def counted_defs c getitem_def
        is_number_ex)
qed

lemma head_num:
  "list_all is_number (items curve) \<Longrightarrow> getitem (items curve) 0 = Inr p \<Longrightarrow> is_number p"
  by (auto simp: getitem_def list_all_length split: if_splits)

text \<open>
  C9, as amended. Through \<open>get_driver_for_target_current\<close> and
  \<open>get_driver_for_target_ocp\<close>, on a battery of positive cathode width whose curve holds
  numbers (no NaN), the assertion of \<open>guess_drive_pot\<close> never fails: setting index 0 of
  the closure's copy to \<open>charge_curve[0]\<close> gives the curve back, so the closure
  returns what the first observation returned, a number, which equals itself, and no call
  ends in AssertionError.
\<close>

theorem driver_assertion_holds:
  "(getitem (items (charge_curve self)) 0 = Inr p \<longrightarrow>
      setitem (charge_curve self) 0 p = Inr (charge_curve self)
      \<and> get_calc_current self (charge_curve self) p = compute_current self p (charge_curve self)
      \<and> get_calc_ocp self (charge_curve self) p = compute_ocp self p (charge_curve self))
   \<and> (0 < cathode_width self \<and> list_all is_number (items (charge_curve self)) \<longrightarrow>
        fst (get_driver_for_target_current self target) \<noteq> Inl AssertionError
        \<and> fst (get_driver_for_target_ocp self target) \<noteq> Inl AssertionError)"
proof -
  let ?c = "charge_curve self"
  have a: "fst (get_driver_for_target_current self target) \<noteq> Inl AssertionError
        \<and> fst (get_driver_for_target_ocp self target) \<noteq> Inl AssertionError"
    if w: "0 < cathode_width self" and n: "list_all is_number (items ?c)"
  proof -
    have nc: "is_number v" if "getitem (items ?c) 0 = Inr q" "fst (compute_current self q ?c) = Inr v"
      for q v
    proof -
      from that(1) have ne: "items ?c \<noteq> []" by (auto simp: getitem_def split: if_splits)
      from compute_current_num[OF w ne n head_num[OF n that(1)]] that(2) show ?thesis by auto
    qed
    have no: "is_number v" if "getitem (items ?c) 0 = Inr q" "fst (compute_ocp self q ?c) = Inr v"
      for q v
    proof -
      from that(1) have ne: "items ?c \<noteq> []" by (auto simp: getitem_def split: if_splits)
      from compute_ocp_num[OF w ne n head_num[OF n that(1)]] that(2) show ?thesis by auto
    qed
    have "fst (get_driver_for_target_current self target) \<noteq> Inl AssertionError"
      unfolding get_driver_for_target_current_def
      by (rule guess_no_assertion) (auto simp: calc_current_paired nc dest: compute_current_error)
    moreover have "fst (get_driver_for_target_ocp self target) \<noteq> Inl AssertionError"
      unfolding get_driver_for_target_ocp_def
      by (rule guess_no_assertion) (auto simp: calc_ocp_paired no dest: compute_ocp_error)
    ultimately show ?thesis by simp
  qed
  show ?thesis
    using a by (auto simp: setitem_own_head calc_current_paired calc_ocp_paired)
qed

theorem driver_assertion_holds_witness:
  "getitem (items (charge_curve test_battery)) 0 = Inr (Num 1)
   \<and> 0 < cathode_width test_battery
   \<and> list_all is_number (items (charge_curve test_battery))
   \<and> setitem (charge_curve test_battery) 0 (Num 1) = Inr (charge_curve test_battery)
   \<and> get_calc_ocp test_battery (Int64 [1, 2, 3]) (Num 1)
        = compute_ocp test_battery (Num 1) (Int64 [1, 2, 3])
   \<and> fst (get_driver_for_target_ocp test_battery (Num 2)) \<noteq> Inl AssertionError"
  using driver_assertion_holds [of test_battery "Num 1" "Num 2"]
  by (simp add: test_battery_def getitem_def)

text \<open>The update of a curve whose index 0 holds NaN.\<close>

lemma diffuse_nan_head:
  assumes "kernel_gaussian self = [Num g0, Num g1, Num g2]"
  shows "diffuse self [NaN, Num b, Num c] = Inr [NaN, NaN, Num (b * g2 + c * g1 + c * g0)]"
  by (simp add: diffuse_def assms Let_def np_convolve_same_def np_convolve_full_def
      slice_to_neg_def upt_conv_Cons nth_Cons' nth_append)

text \<open>
  C9 as stated (for every battery) fails where the first observation is NaN, which is not
  equal to itself: at the cathode width 0, where every update is an array of NaN, both
  drivers end in AssertionError on the test battery's curve; and so does a driver at the
  width 3 on a curve whose index 0 holds NaN.
\<close>

theorem driver_assertion_fails:
  "fst (get_driver_for_target_ocp (test_battery\<lparr>cathode_width := 0\<rparr>) (Num 2))
     = Inl AssertionError
   \<and> fst (get_driver_for_target_current (test_battery\<lparr>cathode_width := 0\<rparr>) (Num 15))
     = Inl AssertionError
   \<and> fst (get_driver_for_target_ocp
            (test_battery\<lparr>charge_curve := Float64 [NaN, Num 2, Num 3]\<rparr>) (Num 2))
     = Inl AssertionError"
proof -
  let ?z = "test_battery\<lparr>cathode_width := 0\<rparr>"
  let ?n = "test_battery\<lparr>charge_curve := Float64 [NaN, Num 2, Num 3]\<rparr>"
  have kz: "kernel_gaussian ?z = [NaN]" by (rule kernel_width_0) simp
  have cz: "compute_charge_curve ?z (Num 1) (Int64 [1, 2, 3]) = Inr (Float64 [NaN, NaN, NaN])"
    by (simp add: compute_charge_curve_def diffuse_width_0[OF kz])
  have oz: "compute_ocp ?z (Num 1) (Int64 [1, 2, 3]) = (Inr NaN, 1)"
    by (simp add: compute_ocp_def call_compute_charge_curve_def counted_defs cz getitem_def)
  have iz: "compute_current ?z (Num 1) (Int64 [1, 2, 3]) = (Inr NaN, 1)"
    by (simp add: compute_current_def call_compute_charge_curve_def counted_defs cz)
  have curve_z: "charge_curve ?z = Int64 [1, 2, 3]" by (simp add: test_battery_def)
  have a: "fst (get_driver_for_target_ocp ?z (Num 2)) = Inl AssertionError"
    by (simp add: get_driver_for_target_ocp_def curve_z guess_drive_pot_def getitem_def
        get_calc_ocp_def oz counted_defs)
  have b: "fst (get_driver_for_target_current ?z (Num 15)) = Inl AssertionError"
    by (simp add: get_driver_for_target_current_def curve_z guess_drive_pot_def getitem_def
        get_calc_current_def iz counted_defs)
  obtain g0 g1 g2 where k: "kernel_gaussian test_battery = [Num g0, Num g1, Num g2]"
    by (rule kernel_test_battery)
  have kn: "kernel_gaussian ?n = [Num g0, Num g1, Num g2]"
    using kernel_only_width[of ?n test_battery] k by simp
  have cn: "compute_charge_curve ?n NaN (Float64 [NaN, Num 2, Num 3])
              = Inr (Float64 [NaN, NaN, Num (2 * g2 + 3 * g1 + 3 * g0)])"
    by (simp add: compute_charge_curve_def diffuse_nan_head[OF kn])
  have on: "compute_ocp ?n NaN (Float64 [NaN, Num 2, Num 3]) = (Inr NaN, 1)"
    by (simp add: compute_ocp_def call_compute_charge_curve_def counted_defs cn getitem_def)
  have c: "fst (get_driver_for_target_ocp ?n (Num 2)) = Inl AssertionError"
    by (simp add: get_driver_for_target_ocp_def guess_drive_pot_def getitem_def
        get_calc_ocp_def on counted_defs)
  from a b c show ?thesis by simp
qed

subsection \<open>The shape of the kernel\<close>

lemma gauss_value_even: "gauss_value sigma (- x) = gauss_value sigma x"
  by (simp add: gauss_value_def)

lemma kernel_gx_multiple_of_ten:
  assumes "cathode_width self = 10 * m" "0 < m"
  shows "kernel_gx self = map (\<lambda>i. real i - 3 * real_of_int m) [0..<nat (6 * m + 1)]"
proof -
  have s: "kernel_sigma self = real_of_int m" using assms(1) by (simp add: kernel_sigma_def)
  have "\<lceil>3 * real_of_int m + 1 - - (3 * real_of_int m)\<rceil> = 6 * m + 1"
  proof -
    have "3 * real_of_int m + 1 - - (3 * real_of_int m) = real_of_int (6 * m + 1)" by simp
    then show ?thesis by (simp only: ceiling_of_int)
  qed
  then show ?thesis
    by (simp add: kernel_gx_def Let_def np_arange_def s)
qed

text \<open>
  For a positive width that is a multiple of 10 (the shipped width is 1000), \<open>3 * sigma\<close>
  is a whole number: the sample points are odd in number and symmetric about 0, and so is
  the kernel.
\<close>

lemma kernel_symmetric_multiple_of_ten:
  assumes "cathode_width self = 10 * m" "0 < m"
  shows "odd (length (kernel_gx self))"
    and "map uminus (rev (kernel_gx self)) = kernel_gx self"
    and "rev (kernel_gaussian self) = kernel_gaussian self"
proof -
  let ?n = "nat (6 * m + 1)"
  let ?f = "\<lambda>i. real i - 3 * real_of_int m"
  have s: "kernel_sigma self \<noteq> 0" using assms by (simp add: kernel_sigma_def)
  have gx: "kernel_gx self = map ?f [0..<?n]"
    by (rule kernel_gx_multiple_of_ten[OF assms])
  have n: "?n = 2 * nat (3 * m) + 1" using assms(2) by simp
  have rn: "real ?n = 6 * real_of_int m + 1" using assms(2) by simp
  show "odd (length (kernel_gx self))" by (simp only: gx length_map length_upt n) simp
  show sym: "map uminus (rev (kernel_gx self)) = kernel_gx self"
  proof (rule nth_equalityI)
    show "length (map uminus (rev (kernel_gx self))) = length (kernel_gx self)" by simp
  next
    fix i assume "i < length (map uminus (rev (kernel_gx self)))"
    then have i: "i < ?n" by (simp add: gx)
    then have "real (?n - Suc i) = 6 * real_of_int m - real i"
      using rn by (simp add: of_nat_diff)
    with i show "map uminus (rev (kernel_gx self)) ! i = kernel_gx self ! i"
      by (simp add: gx rev_nth del: upt_Suc)
  qed
  have r: "rev (kernel_gx self) = map uminus (kernel_gx self)"
  proof -
    have "map uminus (map uminus (rev (kernel_gx self))) = map uminus (kernel_gx self)"
      by (simp only: sym)
    then show ?thesis by (simp add: comp_def)
  qed
  show "rev (kernel_gaussian self) = kernel_gaussian self"
    by (simp add: kernel_gaussian_alt[OF s] rev_map r comp_def gauss_value_even)
qed

text \<open>
  C7. The kernel should be sampled over the symmetric range \<open>[-3 * sigma, 3 * sigma]\<close>,
  have an odd number of samples and be symmetric about 0, for every width. For the width
  3 of the test battery the sample points are \<open>-0.9, 0.1, 1.1\<close>: they start at
  \<open>-3 * sigma\<close> but are not centred on 0, the last one lies beyond \<open>3 * sigma = 0.9\<close>,
  and neither the points nor the kernel's values are symmetric. For the width 5 the
  kernel has four samples.
\<close>

theorem kernel_not_symmetric:
  "kernel_gx test_battery = [- 9 / 10, 1 / 10, 11 / 10]
   \<and> map uminus (rev (kernel_gx test_battery)) \<noteq> kernel_gx test_battery
   \<and> rev (kernel_gaussian test_battery) \<noteq> kernel_gaussian test_battery
   \<and> length (kernel_gaussian (test_battery\<lparr>cathode_width := 5\<rparr>)) = 4"
proof -
  obtain g0 g1 g2 where k: "kernel_gaussian test_battery = [Num g0, Num g1, Num g2]"
    and lt: "g2 < g0"
    by (rule kernel_test_battery)
  have "rev (kernel_gaussian test_battery) \<noteq> kernel_gaussian test_battery"
    using lt by (simp add: k)
  moreover have "length (kernel_gaussian (test_battery\<lparr>cathode_width := 5\<rparr>)) = 4"
    by (simp add: length_kernel_gaussian length_kernel_gx kernel_sigma_def)
  ultimately show ?thesis by (simp add: kernel_gx_test_battery)
qed

subsection \<open>The observed potential\<close>

text \<open>The update of the test battery's curve with the driving potential 1.\<close>

lemma test_update:
  assumes "kernel_gaussian test_battery = [Num g0, Num g1, Num g2]"
  shows "compute_charge_curve test_battery (Num 1) (Int64 [1, 2, 3]) =
    Inr (Float64 [Num (g2 + g1 + 2 * g0), Num (g2 + 2 * g1 + 3 * g0),
                  Num (2 * g2 + 3 * g1 + 3 * g0)])"
proof -
  have w: "0 \<le> cathode_width test_battery" by (simp add: test_battery_def)
  show ?thesis
    using compute_charge_curve_int64[OF w, of "[1, 2, 3]" 1]
    by (simp add: update_spec_three_samples[OF assms])
qed

text \<open>
  C1. \<open>compute_ocp\<close> should return the value at index 1 of the updated curve. On the
  test battery's curve with the driving potential 1 it returns the value at index 0,
  which differs from the value at index 1.
\<close>

theorem compute_ocp_reads_boundary:
  "\<exists>v0 v1 v2. compute_charge_curve test_battery (Num 1) (Int64 [1, 2, 3])
                   = Inr (Float64 [Num v0, Num v1, Num v2])
         \<and> fst (compute_ocp test_battery (Num 1) (Int64 [1, 2, 3])) = Inr (Num v0)
         \<and> v0 \<noteq> v1"
proof -
  obtain g0 g1 g2 where k: "kernel_gaussian test_battery = [Num g0, Num g1, Num g2]"
    and pos: "0 < g0" "0 < g1" "0 < g2"
    by (rule kernel_test_battery)
  have "g2 + g1 + 2 * g0 \<noteq> g2 + 2 * g1 + 3 * g0" using pos by simp
  then show ?thesis
    by (simp add: test_update[OF k] compute_ocp_def call_compute_charge_curve_def counted_defs
        getitem_def)
qed

subsection \<open>The number of diffusion updates of a solver call\<close>

lemma compute_current_cost: "snd (compute_current self p curve) = 1"
  by (simp add: compute_current_def call_compute_charge_curve_def counted_defs split: sum.splits)

lemma compute_ocp_cost: "snd (compute_ocp self p curve) = 1"
  by (simp add: compute_ocp_def call_compute_charge_curve_def counted_defs split: sum.splits)

lemma get_calc_current_cost: "snd (get_calc_current self curve p) \<le> Suc 0"
  by (simp add: get_calc_current_def compute_current_cost raiseC_def split: sum.splits)

lemma get_calc_ocp_cost: "snd (get_calc_ocp self curve p) \<le> Suc 0"
  by (simp add: get_calc_ocp_def compute_ocp_cost raiseC_def split: sum.splits)

lemma guess_cost_bound:
  assumes f: "\<And>p c. snd (f p c) = 1"
    and g: "\<And>p. snd (g curve p) \<le> 1"
  shows "snd (guess_drive_pot self curve f g target) \<le> 3"
proof (cases "getitem (items curve) 0")
  case (Inl e)
  then show ?thesis by (simp add: guess_drive_pot_def counted_defs)
next
  case (Inr p)
  obtain r0 where r0: "f p curve = (r0, 1)"
    using f[of p curve] by (cases "f p curve") simp
  obtain rg ng where g0: "g curve p = (rg, ng)" and ng: "ng \<le> 1"
    using g[of p] by (cases "g curve p") simp
  show ?thesis
  proof (cases "setitem curve 0 (fl_add p (Num 1))")
    case (Inl e)
    with Inr r0 g0 ng show ?thesis
      by (auto simp: guess_drive_pot_def counted_defs Let_def split: sum.splits prod.splits)
  next
    case y: (Inr y)
    obtain r1 where r1: "f (fl_add p (Num 1)) y = (r1, 1)"
      using f[of "fl_add p (Num 1)" y] by (cases "f (fl_add p (Num 1)) y") simp
    show ?thesis
      using Inr r0 g0 ng y r1
      by (auto simp: guess_drive_pot_def counted_defs Let_def split: sum.splits prod.splits)
  qed
qed

lemma guess_cost_exact:
  assumes p: "getitem (items curve) 0 = Inr p"
    and y: "setitem curve 0 (fl_add p (Num 1)) = Inr y"
    and f0: "f p curve = (Inr (Num v0), 1)"
    and f1: "f (fl_add p (Num 1)) y = (Inr v1, 1)"
    and g: "g curve p = f p curve"
  shows "snd (guess_drive_pot self curve f g target) = (if fl_eq (Num v0) target then 1 else 3)"
  using p y f0 f1 g
  by (auto simp: guess_drive_pot_def counted_defs Let_def split: sum.splits prod.splits)

lemma head_exists: "items curve \<noteq> [] \<Longrightarrow> getitem (items curve) 0 = Inr (items curve ! 0)"
  by (simp add: getitem_def)

lemma guess_curve_exists:
  assumes "items curve \<noteq> []" "is_number p"
  shows "\<exists>y. setitem curve 0 p = Inr y \<and> items y \<noteq> [] \<and>
              (list_all is_number (items curve) \<longrightarrow> list_all is_number (items y))"
proof (cases curve)
  case (Int64 xs)
  from assms(2) obtain x where "p = Num x" by (auto simp: is_number_ex)
  with Int64 assms(1) show ?thesis by (auto simp: list_all_iff)
next
  case (Float64 xs)
  with assms show ?thesis
    by (auto simp: list_all_iff dest: set_update_subset_insert[THEN subsetD])
qed

text \<open>
  C3, as amended. A call of the solver through \<open>get_driver_for_target_current\<close> or
  \<open>get_driver_for_target_ocp\<close> makes at most three calls of \<open>compute_charge_curve\<close>;
  on a battery of positive width with a non-empty curve (of numbers) it makes exactly one
  when the first observation equals the target, and exactly three otherwise: the first
  observation, the one inside the assertion and the second sample.
\<close>

theorem solver_evaluations:
  "snd (get_driver_for_target_current self target) \<le> 3
   \<and> snd (get_driver_for_target_ocp self target) \<le> 3
   \<and> (0 < cathode_width self \<and> items (charge_curve self) \<noteq> []
        \<and> list_all is_number (items (charge_curve self)) \<longrightarrow>
        snd (get_driver_for_target_current self (Num t))
          = (if fst (compute_current self (items (charge_curve self) ! 0) (charge_curve self))
                  = Inr (Num t)
             then 1 else 3)
        \<and> snd (get_driver_for_target_ocp self (Num t))
          = (if fst (compute_ocp self (items (charge_curve self) ! 0) (charge_curve self))
                  = Inr (Num t)
             then 1 else 3))"
proof -
  let ?c = "charge_curve self"
  let ?p = "items ?c ! 0"
  have b1: "snd (get_driver_for_target_current self target) \<le> 3"
    unfolding get_driver_for_target_current_def
    by (rule guess_cost_bound) (simp_all add: compute_current_cost get_calc_current_cost)
  have b2: "snd (get_driver_for_target_ocp self target) \<le> 3"
    unfolding get_driver_for_target_ocp_def
    by (rule guess_cost_bound) (simp_all add: compute_ocp_cost get_calc_ocp_cost)
  have e: "snd (get_driver_for_target_current self (Num t))
          = (if fst (compute_current self ?p ?c) = Inr (Num t) then 1 else 3)
        \<and> snd (get_driver_for_target_ocp self (Num t))
          = (if fst (compute_ocp self ?p ?c) = Inr (Num t) then 1 else 3)"
    if w: "0 < cathode_width self" and ne: "items ?c \<noteq> []"
      and n: "list_all is_number (items ?c)"
  proof -
    note h = head_exists[OF ne]
    have np: "is_number ?p" by (rule head_num[OF n h])
    then have np1: "is_number (fl_add ?p (Num 1))" by (simp add: is_number_add)
    obtain y where y: "setitem ?c 0 (fl_add ?p (Num 1)) = Inr y" and ney: "items y \<noteq> []"
      and ny: "list_all is_number (items y)"
      using guess_curve_exists[OF ne np1] n by blast
    obtain v0 where v0: "compute_current self ?p ?c = (Inr (Num v0), 1)"
      using compute_current_num[OF w ne n np] by blast
    obtain v1 where v1: "compute_current self (fl_add ?p (Num 1)) y = (Inr (Num v1), 1)"
      using compute_current_num[OF w ney ny np1] by blast
    obtain u0 where u0: "compute_ocp self ?p ?c = (Inr (Num u0), 1)"
      using compute_ocp_num[OF w ne n np] by blast
    obtain u1 where u1: "compute_ocp self (fl_add ?p (Num 1)) y = (Inr (Num u1), 1)"
      using compute_ocp_num[OF w ney ny np1] by blast
    show ?thesis
      unfolding get_driver_for_target_current_def get_driver_for_target_ocp_def
      using guess_cost_exact[where f = "compute_current self" and g = "get_calc_current self",
          OF h y v0 v1 calc_current_paired[OF h], of self "Num t"]
        guess_cost_exact[where f = "compute_ocp self" and g = "get_calc_ocp self",
          OF h y u0 u1 calc_ocp_paired[OF h], of self "Num t"]
      by (simp add: v0 u0)
  qed
  from b1 b2 e show ?thesis by blast
qed

theorem solver_evaluations_witness:
  "0 < cathode_width test_battery \<and> items (charge_curve test_battery) \<noteq> []
   \<and> list_all is_number (items (charge_curve test_battery))
   \<and> snd (get_driver_for_target_ocp test_battery (Num 2)) \<le> 3
   \<and> snd (get_driver_for_target_ocp test_battery (Num 2))
       = (if fst (compute_ocp test_battery (Num 1) (Int64 [1, 2, 3])) = Inr (Num 2)
          then 1 else 3)"
  using solver_evaluations[of test_battery "Num 2" 2]
  by (simp add: test_battery_def)

text \<open>
  C3 as stated (exactly two updates on every branch) fails on both branches: the call of
  the repository's test makes three updates, and a call on the idle battery with the
  target current 0 makes one.
\<close>

theorem solver_not_two_evaluations:
  "snd (get_driver_for_target_ocp test_battery (Num 2)) = 3
   \<and> snd (get_driver_for_target_current idle_battery (Num 0)) = 1"
proof -
  obtain g0 g1 g2 where k: "kernel_gaussian test_battery = [Num g0, Num g1, Num g2]"
    and pos: "0 < g0" "0 < g1" "0 < g2" and one: "g0 + g1 + g2 = 1"
    by (rule kernel_test_battery)
  have o: "compute_ocp test_battery (Num 1) (Int64 [1, 2, 3]) = (Inr (Num (g2 + g1 + 2 * g0)), 1)"
    by (simp add: compute_ocp_def call_compute_charge_curve_def counted_defs getitem_def
        test_update[OF k])
  have ne2: "g2 + g1 + 2 * g0 \<noteq> 2" using pos one by linarith
  have w: "0 < cathode_width test_battery" "charge_curve test_battery = Int64 [1, 2, 3]"
    by (simp_all add: test_battery_def)
  obtain u1 where u1: "compute_ocp test_battery (Num 2) (Int64 [2, 2, 3]) = (Inr (Num u1), 1)"
    using compute_ocp_num[OF w(1), of "Int64 [2, 2, 3]" "Num 2"] by (auto simp: list_all_iff)
  have p: "get_calc_ocp test_battery (Int64 [1, 2, 3]) (Num 1)
             = compute_ocp test_battery (Num 1) (Int64 [1, 2, 3])"
    by (rule calc_ocp_paired) (simp add: getitem_def)
  have three: "snd (get_driver_for_target_ocp test_battery (Num 2)) = 3"
    unfolding get_driver_for_target_ocp_def w(2)
    using guess_cost_exact[of "Int64 [1, 2, 3]" "Num 1" "Int64 [2, 2, 3]"
        "compute_ocp test_battery" "g2 + g1 + 2 * g0" "Num u1"
        "get_calc_ocp test_battery" test_battery "Num 2"] o u1 p ne2
    by (simp add: getitem_def)
  have wi: "0 \<le> cathode_width idle_battery" by (simp add: idle_battery_def)
  have ki: "kernel_gaussian idle_battery = [Num g0, Num g1, Num g2]"
    using kernel_only_width[of idle_battery test_battery] k
    by (simp add: idle_battery_def test_battery_def)
  have ci: "compute_charge_curve idle_battery (Num 0) (Int64 [0, 0, 0])
              = Inr (Float64 [Num 0, Num 0, Num 0])"
    using compute_charge_curve_int64[OF wi, of "[0, 0, 0]" 0]
    by (simp add: update_spec_three_samples[OF ki])
  have "compute_current idle_battery (Num 0) (Int64 [0, 0, 0]) = (Inr (Num 0), 1)"
    by (simp add: compute_current_def call_compute_charge_curve_def counted_defs ci)
  then have one_eval: "snd (get_driver_for_target_current idle_battery (Num 0)) = 1"
    by (simp add: get_driver_for_target_current_def
        idle_battery_def[THEN arg_cong, of charge_curve]
        guess_drive_pot_def counted_defs Let_def getitem_def)
  from three one_eval show ?thesis by simp
qed

end
